theory Spec2Isabelle
  imports Main "HOL-Library.Word"
begin

unbundle bit_operations_syntax

section \<open>Data model\<close>

text \<open>
  The source string is a C object of bytes; \<open>mem\<close> is that object and a cursor is an
  index into it (the pointer \<open>*_str\<close> minus the object's base). A read outside the
  object is undefined behaviour in C and is an error value here.
\<close>

type_synonym byte = "8 word"
type_synonym uint16_t = "16 word"
type_synonym uint32_t = "32 word"
type_synonym size_t = "64 word"

datatype error = ReadOutOfBounds

definition UNICODE_BOGUS_CHAR_VALUE :: uint32_t where
  "UNICODE_BOGUS_CHAR_VALUE = 0xFFFFFFFF"

definition UNICODE_BOGUS_CHAR_CODEPOINT :: uint32_t where
  "UNICODE_BOGUS_CHAR_CODEPOINT = 0x3F"

text \<open>\<open>(uint32_t) ((uint8_t) *str)\<close> at cursor \<open>p\<close>.\<close>

definition octet_at :: "byte list \<Rightarrow> nat \<Rightarrow> uint32_t option" where
  "octet_at mem p = (if p < length mem then Some (ucast (mem ! p)) else None)"

text \<open>The test \<open>(octet & (128+64)) != 128\<close>: the byte is not of the form 10xxxxxx.\<close>

definition not_continuation :: "uint32_t \<Rightarrow> bool" where
  "not_continuation octet = (octet AND (128 + 64) \<noteq> 128)"

section \<open>The code point decoder\<close>

text \<open>
  Each branch of \<open>FAudio_UTF8_CodePoint\<close> is a definition of its own. Every branch is
  entered with the cursor at the leading byte \<open>p\<close>; the result is the returned value
  and the new cursor. The first statement of each multi-octet branch is \<open>(*_str)++\<close>,
  so an early return leaves the cursor at \<open>p + 1\<close>.
\<close>

definition two_octets :: "byte list \<Rightarrow> nat \<Rightarrow> uint32_t \<Rightarrow> (uint32_t \<times> nat) option" where
  "two_octets mem p octet0 =
     (let octet = octet0 - (128 + 64) in
     case octet_at mem (p + 1) of None \<Rightarrow> None | Some octet2 \<Rightarrow>
     if not_continuation octet2 then Some (UNICODE_BOGUS_CHAR_VALUE, p + 1)
     else
       (let retval = (push_bit 6 octet) OR (octet2 - 128) in
        if retval \<ge> 0x80 \<and> retval \<le> 0x7FF then Some (retval, p + 1 + 1)
        else Some (UNICODE_BOGUS_CHAR_VALUE, p + 1 + 1)))"

definition three_octets :: "byte list \<Rightarrow> nat \<Rightarrow> uint32_t \<Rightarrow> (uint32_t \<times> nat) option" where
  "three_octets mem p octet0 =
     (let octet = octet0 - (128 + 64 + 32) in
     case octet_at mem (p + 1) of None \<Rightarrow> None | Some octet2 \<Rightarrow>
     if not_continuation octet2 then Some (UNICODE_BOGUS_CHAR_VALUE, p + 1)
     else
     (case octet_at mem (p + 2) of None \<Rightarrow> None | Some octet3 \<Rightarrow>
     if not_continuation octet3 then Some (UNICODE_BOGUS_CHAR_VALUE, p + 1)
     else
       (let retval = (push_bit 12 octet) OR (push_bit 6 (octet2 - 128)) OR (octet3 - 128) in
        if retval \<in> {0xD800, 0xDB7F, 0xDB80, 0xDBFF, 0xDC00, 0xDF80, 0xDFFF}
        then Some (UNICODE_BOGUS_CHAR_VALUE, p + 1 + 2)
        else if retval \<ge> 0x800 \<and> retval \<le> 0xFFFD then Some (retval, p + 1 + 2)
        else Some (UNICODE_BOGUS_CHAR_VALUE, p + 1 + 2))))"

definition four_octets :: "byte list \<Rightarrow> nat \<Rightarrow> uint32_t \<Rightarrow> (uint32_t \<times> nat) option" where
  "four_octets mem p octet0 =
     (let octet = octet0 - (128 + 64 + 32 + 16) in
     case octet_at mem (p + 1) of None \<Rightarrow> None | Some octet2 \<Rightarrow>
     if not_continuation octet2 then Some (UNICODE_BOGUS_CHAR_VALUE, p + 1)
     else
     (case octet_at mem (p + 2) of None \<Rightarrow> None | Some octet3 \<Rightarrow>
     if not_continuation octet3 then Some (UNICODE_BOGUS_CHAR_VALUE, p + 1)
     else
     (case octet_at mem (p + 3) of None \<Rightarrow> None | Some octet4 \<Rightarrow>
     if not_continuation octet4 then Some (UNICODE_BOGUS_CHAR_VALUE, p + 1)
     else
       (let retval = (push_bit 18 octet) OR (push_bit 12 (octet2 - 128)) OR
                     (push_bit 6 (octet3 - 128)) OR (octet4 - 128) in
        if retval \<ge> 0x10000 \<and> retval \<le> 0x10FFFF then Some (retval, p + 1 + 3)
        else Some (UNICODE_BOGUS_CHAR_VALUE, p + 1 + 3)))))"

text \<open>
  The five- and six-octet branches reuse the variable \<open>octet\<close> for each byte read and
  throw the code point away. They differ in the number of bytes read and in the final
  \<open>*_str += 4\<close> and \<open>*_str += 6\<close>.
\<close>

definition five_octets :: "byte list \<Rightarrow> nat \<Rightarrow> (uint32_t \<times> nat) option" where
  "five_octets mem p =
    (
     case octet_at mem (p + 1) of None \<Rightarrow> None | Some octet \<Rightarrow>
     if not_continuation octet then Some (UNICODE_BOGUS_CHAR_VALUE, p + 1)
     else
     (case octet_at mem (p + 2) of None \<Rightarrow> None | Some octet \<Rightarrow>
     if not_continuation octet then Some (UNICODE_BOGUS_CHAR_VALUE, p + 1)
     else
     (case octet_at mem (p + 3) of None \<Rightarrow> None | Some octet \<Rightarrow>
     if not_continuation octet then Some (UNICODE_BOGUS_CHAR_VALUE, p + 1)
     else
     (case octet_at mem (p + 4) of None \<Rightarrow> None | Some octet \<Rightarrow>
     if not_continuation octet then Some (UNICODE_BOGUS_CHAR_VALUE, p + 1)
     else
       Some (UNICODE_BOGUS_CHAR_VALUE, p + 1 + 4)))))"

definition six_octets :: "byte list \<Rightarrow> nat \<Rightarrow> (uint32_t \<times> nat) option" where
  "six_octets mem p =
    (
     case octet_at mem (p + 1) of None \<Rightarrow> None | Some octet \<Rightarrow>
     if not_continuation octet then Some (UNICODE_BOGUS_CHAR_VALUE, p + 1)
     else
     (case octet_at mem (p + 2) of None \<Rightarrow> None | Some octet \<Rightarrow>
     if not_continuation octet then Some (UNICODE_BOGUS_CHAR_VALUE, p + 1)
     else
     (case octet_at mem (p + 3) of None \<Rightarrow> None | Some octet \<Rightarrow>
     if not_continuation octet then Some (UNICODE_BOGUS_CHAR_VALUE, p + 1)
     else
     (case octet_at mem (p + 4) of None \<Rightarrow> None | Some octet \<Rightarrow>
     if not_continuation octet then Some (UNICODE_BOGUS_CHAR_VALUE, p + 1)
     else
     (case octet_at mem (p + 5) of None \<Rightarrow> None | Some octet \<Rightarrow>
     if not_continuation octet then Some (UNICODE_BOGUS_CHAR_VALUE, p + 1)
     else
       Some (UNICODE_BOGUS_CHAR_VALUE, p + 1 + 6))))))"

definition FAudio_UTF8_CodePoint :: "byte list \<Rightarrow> nat \<Rightarrow> (uint32_t \<times> nat) option" where
  "FAudio_UTF8_CodePoint mem p =
     (case octet_at mem p of None \<Rightarrow> None | Some octet \<Rightarrow>
      if octet = 0 then Some (0, p)
      else if octet < 128 then Some (octet, p + 1)
      else if octet > 127 \<and> octet < 192 then Some (UNICODE_BOGUS_CHAR_VALUE, p + 1)
      else if octet < 224 then two_octets mem p octet
      else if octet < 240 then three_octets mem p octet
      else if octet < 248 then four_octets mem p octet
      else if octet < 252 then five_octets mem p
      else six_octets mem p)"

section \<open>The bounded writer\<close>

text \<open>
  The loop of \<open>FAudio_UTF8_To_UTF16\<close>. Its state is the source cursor \<open>p\<close>, the
  remaining byte budget \<open>len\<close> (a \<open>size_t\<close>, 64 bits here) and the units stored so
  far: \<open>*(dst++) = u\<close> appends \<open>u\<close> to \<open>out\<close>, so \<open>out ! k\<close> is what the call stores
  in \<open>dst[k]\<close> and \<open>2 * length out\<close> is the number of destination bytes written. The
  list \<open>calls\<close> is a ghost variable: the cursor positions handed to the decoder, in
  order. A store of a 32-bit value to a \<open>uint16_t\<close> keeps its low 16 bits (\<open>ucast\<close>).
  After the loop, \<open>*dst = 0\<close> stores the terminator.
\<close>

function utf16_loop ::
  "byte list \<Rightarrow> nat \<Rightarrow> size_t \<Rightarrow> uint16_t list \<Rightarrow> nat list \<Rightarrow> error + (uint16_t list \<times> nat list)"
where
  "utf16_loop mem p len out calls =
     (if len \<ge> 2 then
        case FAudio_UTF8_CodePoint mem p of
          None \<Rightarrow> Inl ReadOutOfBounds
        | Some (cp0, p') \<Rightarrow>
            if cp0 = 0 then Inr (out @ [0], calls @ [p])
            else
              let cp = (if cp0 = UNICODE_BOGUS_CHAR_VALUE then UNICODE_BOGUS_CHAR_CODEPOINT else cp0) in
              if cp > 0xFFFF then
                if len < 2 * 2 then Inr (out @ [0], calls @ [p])
                else
                  let cp1 = cp - 0x10000;
                      hi = 0xD800 + (drop_bit 10 cp1 AND 0x3FF);
                      lo = 0xDC00 + (cp1 AND 0x3FF)
                  in utf16_loop mem p' (len - 2 - 2) (out @ [ucast hi, ucast lo]) (calls @ [p])
              else utf16_loop mem p' (len - 2) (out @ [ucast cp]) (calls @ [p])
      else Inr (out @ [0], calls))"
  by pat_completeness auto
termination
proof (relation "measure (\<lambda>(mem, p, len, out, calls). unat len)", goal_cases)
  case 1
  show ?case by simp
next
  case (2 mem p len out calls)
  then have "4 \<le> unat len"
    by (simp add: word_less_nat_alt)
  then have "unat (len - 2 - 2) < unat len"
    by (simp add: unat_sub word_le_nat_alt)
  then show ?case by simp
next
  case (3 mem p len out calls)
  then have "2 \<le> unat len"
    by (simp add: word_le_nat_alt)
  then have "unat (len - 2) < unat len"
    by (simp add: unat_sub word_le_nat_alt)
  then show ?case by simp
qed

declare utf16_loop.simps [simp del]

text \<open>
  \<open>FAudio_UTF8_To_UTF16 src dst len\<close>: \<open>len -= sizeof (uint16_t)\<close> wraps around
  when \<open>len < 2\<close>; the loop starts at the first byte of the source object.
\<close>

definition FAudio_UTF8_To_UTF16 :: "byte list \<Rightarrow> size_t \<Rightarrow> error + (uint16_t list \<times> nat list)" where
  "FAudio_UTF8_To_UTF16 mem len = utf16_loop mem 0 (len - 2) [] []"

section \<open>Predicates of the specification\<close>

text \<open>
  A valid scalar in the sense of the data model: at most 0x10FFFF, none of the seven
  reserved surrogate code points, and neither 0xFFFE nor 0xFFFF.
\<close>

definition valid_scalar :: "uint32_t \<Rightarrow> bool" where
  "valid_scalar s =
     (s \<le> 0x10FFFF \<and> s \<notin> {0xD800, 0xDB7F, 0xDB80, 0xDBFF, 0xDC00, 0xDF80, 0xDFFF} \<and>
      s \<noteq> 0xFFFE \<and> s \<noteq> 0xFFFF)"

text \<open>
  The value the writer encodes for a decoded value: the bogus sentinel is replaced by
  \<open>UNICODE_BOGUS_CHAR_CODEPOINT\<close>, as the loop body does before it looks at the size.
\<close>

definition substituted :: "uint32_t \<Rightarrow> uint32_t" where
  "substituted cp =
     (if cp = UNICODE_BOGUS_CHAR_VALUE then UNICODE_BOGUS_CHAR_CODEPOINT else cp)"

text \<open>
  Modelled from the spec: the minimal multi-byte form of a scalar, which the round-trip
  property encodes before decoding. The repository decodes only and has no encoder, so
  this is the standard UTF-8 encoding: the leading byte carries the length marker and
  the top bits, each following byte the marker 10 and six bits.
\<close>

definition utf8_encode :: "uint32_t \<Rightarrow> byte list" where
  "utf8_encode s =
     (if s < 0x80 then [ucast s]
      else if s < 0x800 then
        [ucast (0xC0 OR (drop_bit 6 s AND 0x1F)), ucast (0x80 OR (s AND 0x3F))]
      else if s < 0x10000 then
        [ucast (0xE0 OR (drop_bit 12 s AND 0x0F)), ucast (0x80 OR (drop_bit 6 s AND 0x3F)),
         ucast (0x80 OR (s AND 0x3F))]
      else
        [ucast (0xF0 OR (drop_bit 18 s AND 0x07)), ucast (0x80 OR (drop_bit 12 s AND 0x3F)),
         ucast (0x80 OR (drop_bit 6 s AND 0x3F)), ucast (0x80 OR (s AND 0x3F))])"

section \<open>Properties of the decoder\<close>

lemmas decoder_defs =
  FAudio_UTF8_CodePoint_def two_octets_def three_octets_def four_octets_def
  five_octets_def six_octets_def

lemmas run_defs =
  FAudio_UTF8_To_UTF16_def utf16_loop.simps decoder_defs octet_at_def not_continuation_def
  UNICODE_BOGUS_CHAR_VALUE_def UNICODE_BOGUS_CHAR_CODEPOINT_def

text \<open>At the terminator the decoder returns 0 and does not move the cursor.\<close>

lemma CodePoint_at_terminator:
  "octet_at mem p = Some 0 \<Longrightarrow> FAudio_UTF8_CodePoint mem p = Some (0, p)"
  by (simp add: FAudio_UTF8_CodePoint_def)

text \<open>At any other byte the cursor moves forward, whatever is returned.\<close>

lemma CodePoint_progress:
  assumes "FAudio_UTF8_CodePoint mem p = Some (cp, p')"
    and "octet_at mem p = Some octet" and "octet \<noteq> 0"
  shows "p < p'"
  using assms unfolding decoder_defs
  by (auto simp: Let_def split: option.splits if_splits)

text \<open>The decoder returns 0 at the terminator only.\<close>

lemma CodePoint_zero_iff:
  assumes "FAudio_UTF8_CodePoint mem p = Some (cp, p')"
  shows "cp = 0 \<longleftrightarrow> octet_at mem p = Some 0"
  using assms unfolding decoder_defs UNICODE_BOGUS_CHAR_VALUE_def
  by (auto simp: Let_def split: option.splits if_splits)

text \<open>
  A complete five-octet form is thrown away and the cursor moves by 5; a complete
  six-octet form is thrown away and the cursor moves by 7; with a malformed continuation
  byte either form moves the cursor by 1.
\<close>

lemma five_octets_complete:
  assumes "\<forall>k \<in> {1, 2, 3, 4}. \<exists>c. octet_at mem (p + k) = Some c \<and> \<not> not_continuation c"
  shows "five_octets mem p = Some (UNICODE_BOGUS_CHAR_VALUE, p + 5)"
  using assms by (auto simp: five_octets_def)

lemma six_octets_complete:
  assumes "\<forall>k \<in> {1, 2, 3, 4, 5}. \<exists>c. octet_at mem (p + k) = Some c \<and> \<not> not_continuation c"
  shows "six_octets mem p = Some (UNICODE_BOGUS_CHAR_VALUE, p + 7)"
  using assms by (auto simp: six_octets_def)

lemma five_six_octets_result:
  "five_octets mem p = Some (cp, p') \<Longrightarrow> cp = UNICODE_BOGUS_CHAR_VALUE \<and> (p' = p + 1 \<or> p' = p + 5)"
  "six_octets mem p = Some (cp, p') \<Longrightarrow> cp = UNICODE_BOGUS_CHAR_VALUE \<and> (p' = p + 1 \<or> p' = p + 7)"
  by (auto simp: five_octets_def six_octets_def split: option.splits if_splits)

text \<open>
  Claim C4, as amended. A call at the terminator (leading byte 0) does not move the
  cursor. At every other leading byte below 0xFC, which includes the five-octet forms,
  a call moves the cursor by at least 1 and at most 6 bytes; at every non-zero leading
  byte it moves the cursor by at least 1.
\<close>

theorem CodePoint_advance:
  assumes "FAudio_UTF8_CodePoint mem p = Some (cp, p')" and "octet_at mem p = Some octet"
  shows "(octet = 0 \<longrightarrow> p' = p) \<and> (octet \<noteq> 0 \<longrightarrow> p + 1 \<le> p') \<and>
         (octet \<noteq> 0 \<and> octet < 252 \<longrightarrow> p' \<le> p + 6)"
  using assms unfolding decoder_defs
  by (auto simp: Let_def split: option.splits if_splits)

theorem CodePoint_advance_witness:
  "FAudio_UTF8_CodePoint [0xE2, 0x82, 0xAC, 0] 0 = Some (0x20AC, 3) \<and>
   octet_at [0xE2, 0x82, 0xAC, 0] 0 = Some 0xE2 \<and> (0::nat) + 1 \<le> 3 \<and> (3::nat) \<le> 0 + 6"
  using CodePoint_advance [of "[0xE2, 0x82, 0xAC, 0]" 0 "0x20AC" 3 "0xE2"]
  by (simp add: run_defs)

text \<open>
  Claim C4 as stated fails in the end-of-string case: at a zero byte the call returns
  with the cursor where it was, so it has not advanced by at least 1.
\<close>

theorem CodePoint_advance_counterexample:
  "\<not> (\<exists>cp p'. FAudio_UTF8_CodePoint [0] 0 = Some (cp, p') \<and> 0 + 1 \<le> p' \<and> p' \<le> 0 + 6)"
  by (simp add: run_defs)

text \<open>
  Claim C5, at the input where the code departs from it: the six-octet form 0xFC 0x80
  0x80 0x80 0x80 0x80 is well-formed in all its five continuation bytes, the decoder
  returns bogus, and the cursor has moved by 7 bytes, not 6: it stands behind the
  terminator that follows the form.
\<close>

theorem six_octets_advance_seven:
  "FAudio_UTF8_CodePoint [0xFC, 0x80, 0x80, 0x80, 0x80, 0x80, 0] 0 =
     Some (UNICODE_BOGUS_CHAR_VALUE, 7)"
  by (simp add: run_defs)

text \<open>
  Claim C8. Whatever the decoder returns is 0, the bogus sentinel, or a valid scalar.
\<close>

theorem CodePoint_range:
  "FAudio_UTF8_CodePoint mem p = Some (cp, p') \<Longrightarrow>
     cp = 0 \<or> cp = UNICODE_BOGUS_CHAR_VALUE \<or> valid_scalar cp"
  unfolding decoder_defs valid_scalar_def
  by (auto simp: Let_def word_le_nat_alt word_less_nat_alt split: option.splits if_splits)

theorem CodePoint_range_witness:
  "FAudio_UTF8_CodePoint [0xE2, 0x82, 0xAC, 0] 0 = Some (0x20AC, 3) \<and> valid_scalar 0x20AC"
  using CodePoint_range [of "[0xE2, 0x82, 0xAC, 0]" 0 "0x20AC" 3]
  by (simp add: run_defs valid_scalar_def)

subsection \<open>Round trip through the minimal encoding\<close>

text \<open>Words whose set bits do not overlap add up to their disjunction.\<close>

lemma or_is_add:
  fixes a b :: "'a::len word"
  assumes "a AND b = 0"
  shows "a OR b = a + b"
proof -
  have "\<not> bit a n \<or> \<not> bit b n" for n
  proof -
    have "\<not> bit (a AND b) n" using assms by simp
    then show ?thesis by (simp add: bit_and_iff)
  qed
  then show ?thesis by (simp add: disjunctive_add)
qed

lemma upper_bits:
  fixes s :: "32 word"
  assumes "uint s < 2 ^ k" and "bit s n" shows "n < k"
proof -
  have "s AND mask k = s" using assms(1) by (simp add: mask_eq_iff)
  then have "bit (s AND mask k) n" using assms(2) by simp
  then show ?thesis by (simp add: bit_and_iff bit_mask_iff)
qed

lemma ucast_byte:
  assumes "w < 256" shows "ucast (ucast (w :: 32 word) :: 8 word) = w"
proof (rule bit_word_eqI)
  fix n assume "n < LENGTH(32)"
  have "uint w < 2 ^ 8" using assms by (simp add: word_less_def)
  then have "bit w n \<Longrightarrow> n < 8" by (rule upper_bits)
  then show "bit (ucast (ucast w :: 8 word) :: 32 word) n = bit w n"
    by (auto simp: bit_ucast_iff)
qed

text \<open>A marker and a masked field, as the decoder reads the byte back.\<close>

lemma marked_octet:
  fixes marker field m :: "32 word"
  assumes dis: "marker AND m = 0" and bound: "unat marker + unat m < 256"
  defines "y \<equiv> field AND m"
  shows "ucast (ucast (marker OR y) :: byte) = marker + y"
    and "unat (marker + y) = unat marker + unat y" and "unat y \<le> unat m"
proof -
  have "y \<le> m" unfolding y_def by (rule word_and_le1)
  then show b: "unat y \<le> unat m" by (simp add: word_le_nat_alt)
  have "marker AND y = field AND (marker AND m)" unfolding y_def by (simp add: and.left_commute)
  then have e: "marker OR y = marker + y" using dis by (simp add: or_is_add)
  show u: "unat (marker + y) = unat marker + unat y"
    using b bound by (intro unat_add_lem [THEN iffD1]) simp
  show "ucast (ucast (marker OR y) :: byte) = marker + y"
    unfolding e using u b bound by (intro ucast_byte) (simp add: word_less_nat_alt)
qed

lemmas cont_octet = marked_octet [of "0x80" "0x3F", simplified]
lemmas lead2_octet = marked_octet [of "0xC0" "0x1F", simplified]
lemmas lead3_octet = marked_octet [of "0xE0" "0x0F", simplified]
lemmas lead4_octet = marked_octet [of "0xF0" "0x07", simplified]

lemma continuation_ok: "unat y \<le> 63 \<Longrightarrow> \<not> not_continuation (128 + y)"
proof -
  assume a: "unat y \<le> 63"
  then have "y < 64" by (simp add: word_less_nat_alt)
  then have "uint y < 2 ^ 6" by (simp add: word_less_def)
  then have m: "y AND mask 6 = y" by (simp add: mask_eq_iff)
  have "(0x3F :: 32 word) = mask 6" by (simp add: mask_eq_exp_minus_1)
  with m have y: "y = y AND 0x3F" by simp
  have "128 AND y = y AND (128 AND 0x3F)" by (subst y) (simp add: and.left_commute)
  then have "128 + y = 128 OR y" by (simp add: or_is_add)
  moreover have "(128 OR y) AND (128 + 64) = 128"
    by (subst y) (simp add: bit.conj_disj_distrib2 and.assoc)
  ultimately show ?thesis by (simp add: not_continuation_def)
qed

lemma reassemble2:
  fixes s :: "32 word"
  assumes "s \<le> 0x7FF"
  shows "push_bit 6 (drop_bit 6 s AND 0x1F) OR (s AND 0x3F) = s"
proof (rule bit_word_eqI)
  fix n assume "n < LENGTH(32)"
  have m: "(0x3F :: 32 word) = mask 6" "(0x1F :: 32 word) = mask 5"
    by (simp_all add: mask_eq_exp_minus_1)
  have "uint s < 2 ^ 11" using assms by (simp add: word_le_def)
  then have k: "bit s n \<Longrightarrow> n < 11" by (rule upper_bits)
  consider "n < 6" | "6 \<le> n" by linarith
  then show "bit (push_bit 6 (drop_bit 6 s AND 0x1F) OR (s AND 0x3F)) n = bit s n"
    unfolding m using k by cases (auto simp: bit_simps)
qed

lemma reassemble3:
  fixes s :: "32 word"
  assumes "s \<le> 0xFFFF"
  shows "push_bit 12 (drop_bit 12 s AND 0xF) OR push_bit 6 (drop_bit 6 s AND 0x3F) OR (s AND 0x3F) = s"
proof (rule bit_word_eqI)
  fix n assume "n < LENGTH(32)"
  have m: "(0x3F :: 32 word) = mask 6" "(0xF :: 32 word) = mask 4"
    by (simp_all add: mask_eq_exp_minus_1)
  have "uint s < 2 ^ 16" using assms by (simp add: word_le_def)
  then have k: "bit s n \<Longrightarrow> n < 16" by (rule upper_bits)
  consider "n < 6" | "6 \<le> n" "n < 12" | "12 \<le> n" by linarith
  then show "bit (push_bit 12 (drop_bit 12 s AND 0xF) OR push_bit 6 (drop_bit 6 s AND 0x3F) OR
                  (s AND 0x3F)) n = bit s n"
    unfolding m using k by cases (auto simp: bit_simps)
qed

lemma reassemble4:
  fixes s :: "32 word"
  assumes "s \<le> 0x10FFFF"
  shows "push_bit 18 (drop_bit 18 s AND 7) OR push_bit 12 (drop_bit 12 s AND 0x3F) OR
         push_bit 6 (drop_bit 6 s AND 0x3F) OR (s AND 0x3F) = s"
proof (rule bit_word_eqI)
  fix n assume "n < LENGTH(32)"
  have m: "(0x3F :: 32 word) = mask 6" "(7 :: 32 word) = mask 3"
    by (simp_all add: mask_eq_exp_minus_1)
  have "uint s < 2 ^ 21" using assms by (simp add: word_le_def)
  then have k: "bit s n \<Longrightarrow> n < 21" by (rule upper_bits)
  consider "n < 6" | "6 \<le> n" "n < 12" | "12 \<le> n" "n < 18" | "18 \<le> n" by linarith
  then show "bit (push_bit 18 (drop_bit 18 s AND 7) OR push_bit 12 (drop_bit 12 s AND 0x3F) OR
                  push_bit 6 (drop_bit 6 s AND 0x3F) OR (s AND 0x3F)) n = bit s n"
    unfolding m using k by cases (auto simp: bit_simps)
qed

lemma cont_field_ok: "\<not> not_continuation (128 + (x AND 63))"
  by (rule continuation_ok) (rule cont_octet)

lemma decode_two:
  assumes r0: "octet_at mem p = Some (192 + (drop_bit 6 s AND 31))"
    and r1: "octet_at mem (p + 1) = Some (128 + (s AND 63))"
    and range: "0x80 \<le> s" "s \<le> 0x7FF"
  shows "FAudio_UTF8_CodePoint mem p = Some (s, p + 2)"
proof -
  let ?o = "192 + (drop_bit 6 s AND 31) :: 32 word"
  have u: "unat ?o = 192 + unat (drop_bit 6 s AND 31)" "unat (drop_bit 6 s AND 31) \<le> 31"
    by (rule lead2_octet)+
  then have nz: "?o \<noteq> 0" by (metis add_is_0 unat_0 zero_neq_numeral)
  have sel: "\<not> ?o < 128" "\<not> ?o < 192" "?o < 224"
    using u by (simp_all add: word_less_nat_alt)
  have "FAudio_UTF8_CodePoint mem p = two_octets mem p ?o"
    using r0 nz sel by (simp add: FAudio_UTF8_CodePoint_def)
  also have "\<dots> = Some (s, p + 2)"
    using r1 range by (simp add: two_octets_def cont_field_ok reassemble2 del: push_bit_and)
  finally show ?thesis .
qed

lemma decode_three:
  assumes r0: "octet_at mem p = Some (224 + (drop_bit 12 s AND 15))"
    and r1: "octet_at mem (p + 1) = Some (128 + (drop_bit 6 s AND 63))"
    and r2: "octet_at mem (p + 2) = Some (128 + (s AND 63))"
    and range: "0x800 \<le> s" "s \<le> 0xFFFD"
    and legal: "s \<notin> {0xD800, 0xDB7F, 0xDB80, 0xDBFF, 0xDC00, 0xDF80, 0xDFFF}"
  shows "FAudio_UTF8_CodePoint mem p = Some (s, p + 3)"
proof -
  let ?o = "224 + (drop_bit 12 s AND 15) :: 32 word"
  have u: "unat ?o = 224 + unat (drop_bit 12 s AND 15)" "unat (drop_bit 12 s AND 15) \<le> 15"
    by (rule lead3_octet)+
  then have nz: "?o \<noteq> 0" by (metis add_is_0 unat_0 zero_neq_numeral)
  have sel: "\<not> ?o < 128" "\<not> ?o < 192" "\<not> ?o < 224" "?o < 240"
    using u by (simp_all add: word_less_nat_alt)
  have s16: "s \<le> 0xFFFF" using range(2) by (simp add: word_le_nat_alt)
  have "FAudio_UTF8_CodePoint mem p = three_octets mem p ?o"
    using r0 nz sel by (simp add: FAudio_UTF8_CodePoint_def)
  also have "\<dots> = Some (s, p + 3)"
    using r1 r2 range legal by (simp add: three_octets_def cont_field_ok reassemble3 [OF s16] del: push_bit_and)
  finally show ?thesis .
qed

lemma decode_four:
  assumes r0: "octet_at mem p = Some (240 + (drop_bit 18 s AND 7))"
    and r1: "octet_at mem (p + 1) = Some (128 + (drop_bit 12 s AND 63))"
    and r2: "octet_at mem (p + 2) = Some (128 + (drop_bit 6 s AND 63))"
    and r3: "octet_at mem (p + 3) = Some (128 + (s AND 63))"
    and range: "0x10000 \<le> s" "s \<le> 0x10FFFF"
  shows "FAudio_UTF8_CodePoint mem p = Some (s, p + 4)"
proof -
  let ?o = "240 + (drop_bit 18 s AND 7) :: 32 word"
  have u: "unat ?o = 240 + unat (drop_bit 18 s AND 7)" "unat (drop_bit 18 s AND 7) \<le> 7"
    by (rule lead4_octet)+
  then have nz: "?o \<noteq> 0" by (metis add_is_0 unat_0 zero_neq_numeral)
  have sel: "\<not> ?o < 128" "\<not> ?o < 192" "\<not> ?o < 224" "\<not> ?o < 240" "?o < 248"
    using u by (simp_all add: word_less_nat_alt)
  have "FAudio_UTF8_CodePoint mem p = four_octets mem p ?o"
    using r0 nz sel by (simp add: FAudio_UTF8_CodePoint_def)
  also have "\<dots> = Some (s, p + 4)"
    using r1 r2 r3 range by (simp add: four_octets_def cont_field_ok reassemble4 del: push_bit_and)
  finally show ?thesis .
qed

lemma octet_at_middle:
  assumes "k < length xs" and "ucast (xs ! k) = v"
  shows "octet_at (pre @ xs @ rest) (length pre + k) = Some v"
  using assms by (simp add: octet_at_def nth_append)

text \<open>
  Claim C6. For every scalar in [0x80, 0x7FF], in [0x800, 0xFFFD] without the seven
  reserved surrogate code points, and in [0x10000, 0x10FFFF], the decoder run on the
  minimal encoding of the scalar, wherever it stands in the source, returns the scalar
  and moves the cursor by the length of the encoding.
\<close>

theorem decode_encode_roundtrip:
  assumes "(0x80 \<le> s \<and> s \<le> 0x7FF) \<or>
           (0x800 \<le> s \<and> s \<le> 0xFFFD \<and> s \<notin> {0xD800, 0xDB7F, 0xDB80, 0xDBFF, 0xDC00, 0xDF80, 0xDFFF}) \<or>
           (0x10000 \<le> s \<and> s \<le> 0x10FFFF)"
  shows "FAudio_UTF8_CodePoint (pre @ utf8_encode s @ rest) (length pre) =
           Some (s, length pre + length (utf8_encode s))"
proof -
  let ?mem = "pre @ utf8_encode s @ rest" and ?p = "length pre"
  consider (two) "0x80 \<le> s" "s \<le> 0x7FF"
    | (three) "0x800 \<le> s" "s \<le> 0xFFFD" "s \<notin> {0xD800, 0xDB7F, 0xDB80, 0xDBFF, 0xDC00, 0xDF80, 0xDFFF}"
    | (four) "0x10000 \<le> s" "s \<le> 0x10FFFF"
    using assms by blast
  then show ?thesis
  proof cases
    case two
    then have enc: "utf8_encode s =
        [ucast (0xC0 OR (drop_bit 6 s AND 0x1F)), ucast (0x80 OR (s AND 0x3F))]"
      by (simp add: utf8_encode_def word_le_nat_alt word_less_nat_alt)
    have "octet_at ?mem (?p + 0) = Some (192 + (drop_bit 6 s AND 31))"
         "octet_at ?mem (?p + 1) = Some (128 + (s AND 63))"
      unfolding enc by (rule octet_at_middle; simp add: lead2_octet cont_octet)+
    then show ?thesis using decode_two [of ?mem ?p s] two by (simp add: enc)
  next
    case three
    then have enc: "utf8_encode s =
        [ucast (0xE0 OR (drop_bit 12 s AND 0x0F)), ucast (0x80 OR (drop_bit 6 s AND 0x3F)),
         ucast (0x80 OR (s AND 0x3F))]"
      by (simp add: utf8_encode_def word_le_nat_alt word_less_nat_alt)
    have "octet_at ?mem (?p + 0) = Some (224 + (drop_bit 12 s AND 15))"
         "octet_at ?mem (?p + 1) = Some (128 + (drop_bit 6 s AND 63))"
         "octet_at ?mem (?p + 2) = Some (128 + (s AND 63))"
      unfolding enc by (rule octet_at_middle; simp add: lead3_octet cont_octet)+
    then show ?thesis using decode_three [of ?mem ?p s] three by (simp add: enc)
  next
    case four
    then have enc: "utf8_encode s =
        [ucast (0xF0 OR (drop_bit 18 s AND 0x07)), ucast (0x80 OR (drop_bit 12 s AND 0x3F)),
         ucast (0x80 OR (drop_bit 6 s AND 0x3F)), ucast (0x80 OR (s AND 0x3F))]"
      by (simp add: utf8_encode_def word_le_nat_alt word_less_nat_alt)
    have "octet_at ?mem (?p + 0) = Some (240 + (drop_bit 18 s AND 7))"
         "octet_at ?mem (?p + 1) = Some (128 + (drop_bit 12 s AND 63))"
         "octet_at ?mem (?p + 2) = Some (128 + (drop_bit 6 s AND 63))"
         "octet_at ?mem (?p + 3) = Some (128 + (s AND 63))"
      unfolding enc by (rule octet_at_middle; simp add: lead4_octet cont_octet)+
    then show ?thesis using decode_four [of ?mem ?p s] four by (simp add: enc)
  qed
qed

theorem decode_encode_roundtrip_witness:
  "FAudio_UTF8_CodePoint ([0x41] @ utf8_encode 0x20AC @ [0]) (length [0x41 :: byte]) =
      Some (0x20AC, length [0x41 :: byte] + length (utf8_encode 0x20AC)) \<and>
   utf8_encode 0x20AC = [0xE2, 0x82, 0xAC]"
  using decode_encode_roundtrip [of "0x20AC" "[0x41]" "[0]"]
  by (simp add: utf8_encode_def)

section \<open>Properties of the writer\<close>

subsection \<open>One iteration of the loop\<close>

lemma loop_exit: "\<not> 2 \<le> len \<Longrightarrow> utf16_loop mem p len out calls = Inr (out @ [0], calls)"
  by (subst utf16_loop.simps) simp

lemma loop_read_error:
  "2 \<le> len \<Longrightarrow> FAudio_UTF8_CodePoint mem p = None \<Longrightarrow>
   utf16_loop mem p len out calls = Inl ReadOutOfBounds"
  by (subst utf16_loop.simps) simp

lemma loop_end_of_string:
  "2 \<le> len \<Longrightarrow> FAudio_UTF8_CodePoint mem p = Some (0, p') \<Longrightarrow>
   utf16_loop mem p len out calls = Inr (out @ [0], calls @ [p])"
  by (subst utf16_loop.simps) simp

lemma loop_single:
  "2 \<le> len \<Longrightarrow> FAudio_UTF8_CodePoint mem p = Some (cp, p') \<Longrightarrow> cp \<noteq> 0 \<Longrightarrow>
   \<not> substituted cp > 0xFFFF \<Longrightarrow>
   utf16_loop mem p len out calls =
     utf16_loop mem p' (len - 2) (out @ [ucast (substituted cp)]) (calls @ [p])"
  by (subst utf16_loop.simps) (simp add: substituted_def)

lemma loop_pair_no_room:
  "2 \<le> len \<Longrightarrow> FAudio_UTF8_CodePoint mem p = Some (cp, p') \<Longrightarrow> cp \<noteq> 0 \<Longrightarrow>
   substituted cp > 0xFFFF \<Longrightarrow> len < 4 \<Longrightarrow>
   utf16_loop mem p len out calls = Inr (out @ [0], calls @ [p])"
  by (subst utf16_loop.simps) (simp add: substituted_def)

lemma loop_pair:
  "FAudio_UTF8_CodePoint mem p = Some (cp, p') \<Longrightarrow> cp \<noteq> 0 \<Longrightarrow>
   substituted cp > 0xFFFF \<Longrightarrow> \<not> len < 4 \<Longrightarrow>
   utf16_loop mem p len out calls =
     utf16_loop mem p' (len - 2 - 2)
       (out @ [ucast (0xD800 + (drop_bit 10 (substituted cp - 0x10000) AND 0x3FF)),
               ucast (0xDC00 + ((substituted cp - 0x10000) AND 0x3FF))]) (calls @ [p])"
  by (subst utf16_loop.simps)
     (simp add: substituted_def Let_def word_le_nat_alt word_less_nat_alt)

subsection \<open>The units of a surrogate pair\<close>

lemma surrogate_unit:
  fixes base x :: uint32_t
  assumes "unat base + 0x3FF < 0x10000"
  shows "unat (ucast (base + (x AND 0x3FF)) :: uint16_t) = unat base + unat (x AND 0x3FF)"
    and "unat (x AND 0x3FF) \<le> 0x3FF"
proof -
  have "x AND 0x3FF \<le> 0x3FF" by (rule word_and_le1)
  then show b: "unat (x AND 0x3FF) \<le> 0x3FF" by (simp add: word_le_nat_alt)
  have u: "unat (base + (x AND 0x3FF)) = unat base + unat (x AND 0x3FF)"
    using b assms by (intro unat_add_lem [THEN iffD1]) simp
  have "unat (ucast (base + (x AND 0x3FF)) :: uint16_t) = take_bit 16 (unat (base + (x AND 0x3FF)))"
    by (simp add: unsigned_ucast_eq)
  also have "\<dots> = unat (base + (x AND 0x3FF))"
    using u b assms by (intro take_bit_nat_eq_self) simp
  finally show "unat (ucast (base + (x AND 0x3FF)) :: uint16_t) = unat base + unat (x AND 0x3FF)"
    using u by simp
qed

lemmas high_unit = surrogate_unit [of "0xD800", simplified]
lemmas low_unit = surrogate_unit [of "0xDC00", simplified]

lemma single_unit:
  fixes cp :: uint32_t
  assumes "\<not> cp > 0xFFFF"
  shows "unat (ucast cp :: uint16_t) = unat cp"
proof -
  have "unat cp < 2 ^ 16" using assms by (simp add: word_less_nat_alt)
  then show ?thesis by (simp add: unsigned_ucast_eq take_bit_nat_eq_self)
qed

subsection \<open>Capacity and terminator\<close>

lemma utf16_loop_bound:
  "utf16_loop mem p len out calls = Inr (out', calls') \<Longrightarrow>
     2 * length out' \<le> 2 * length out + unat len + 2 \<and> out' \<noteq> [] \<and> last out' = 0"
proof (induction mem p len out calls rule: utf16_loop.induct)
  case (1 mem p len out calls)
  show ?case
  proof (cases "2 \<le> len")
    case False
    with "1.prems" show ?thesis by (auto simp: loop_exit)
  next
    case len2: True
    then have ulen: "2 \<le> unat len" by (simp add: word_le_nat_alt)
    show ?thesis
    proof (cases "FAudio_UTF8_CodePoint mem p")
      case None
      with "1.prems" len2 show ?thesis by (simp add: loop_read_error)
    next
      case (Some r)
      then obtain cp p' where dec: "FAudio_UTF8_CodePoint mem p = Some (cp, p')"
        by (cases r) simp
      show ?thesis
      proof (cases "cp = 0")
        case True
        with "1.prems" len2 dec show ?thesis by (auto simp: loop_end_of_string)
      next
        case nz: False
        show ?thesis
        proof (cases "substituted cp > 0xFFFF")
          case small: False
          have "utf16_loop mem p' (len - 2) (out @ [ucast (substituted cp)]) (calls @ [p]) =
                  Inr (out', calls')"
            using "1.prems" loop_single [OF len2 dec nz small] by simp
          moreover have "unat (len - 2) = unat len - 2"
            using ulen by (simp add: unat_sub word_le_nat_alt)
          ultimately show ?thesis
            using "1.IH"(2) [OF len2 dec refl nz refl] small ulen
            by (auto simp: substituted_def)
        next
          case big: True
          show ?thesis
          proof (cases "len < 4")
            case True
            with "1.prems" len2 dec nz big show ?thesis by (auto simp: loop_pair_no_room)
          next
            case room: False
            then have ulen4: "4 \<le> unat len" by (simp add: word_less_nat_alt)
            then have "unat (len - 2 - 2) = unat len - 4"
              by (simp add: unat_sub word_le_nat_alt)
            moreover note "1.prems" [unfolded loop_pair [OF dec nz big room]]
            ultimately show ?thesis
              using "1.IH"(1) [OF len2 dec refl nz refl _ _ refl refl refl] big room ulen4
              by (auto simp: substituted_def)
          qed
        qed
      qed
    qed
  qed
qed

text \<open>
  Claim C1, as amended. For every source and every byte-capacity of at least
  \<open>sizeof (uint16_t)\<close>, a call that returns has stored at most \<open>len\<close> bytes, has
  stored at least one unit, and the last unit stored is zero.
\<close>

theorem To_UTF16_within_capacity:
  assumes "2 \<le> len" and "FAudio_UTF8_To_UTF16 mem len = Inr (out, calls)"
  shows "2 * length out \<le> unat len \<and> out \<noteq> [] \<and> last out = 0"
proof -
  have sub: "unat (len - 2) + 2 = unat len"
    using assms(1) by (simp add: unat_sub word_le_nat_alt)
  have "2 * length out \<le> 2 * length ([] :: uint16_t list) + unat (len - 2) + 2 \<and>
        out \<noteq> [] \<and> last out = 0"
    using assms(2) unfolding FAudio_UTF8_To_UTF16_def by (rule utf16_loop_bound)
  then show ?thesis unfolding sub [symmetric] by simp
qed

theorem To_UTF16_within_capacity_witness:
  "(2 :: size_t) \<le> 6 \<and>
   FAudio_UTF8_To_UTF16 [0x41, 0x42, 0x43, 0x44, 0] 6 = Inr ([0x41, 0x42, 0], [0, 1]) \<and>
   2 * length [0x41, 0x42, 0 :: uint16_t] \<le> unat (6 :: size_t) \<and>
   last [0x41, 0x42, 0 :: uint16_t] = 0"
  using To_UTF16_within_capacity [of 6 "[0x41, 0x42, 0x43, 0x44, 0]" "[0x41, 0x42, 0]" "[0, 1]"]
  by (simp add: run_defs)

text \<open>
  Claim C1 as stated fails for \<open>len = 0\<close> and \<open>len = 1\<close>: the subtraction that
  reserves the terminator wraps around, and the call stores the whole string and its
  terminator. With a capacity of 1 byte the source "A" is stored in 4 bytes.
\<close>

theorem To_UTF16_within_capacity_counterexample:
  "\<exists>out calls. FAudio_UTF8_To_UTF16 [0x41, 0] 1 = Inr (out, calls) \<and>
     \<not> 2 * length out \<le> unat (1 :: size_t)"
  by (simp add: run_defs)

subsection \<open>Surrogate pairs\<close>

text \<open>
  Claim C7. A decoded scalar above 0xFFFF with a remaining budget of two units or more
  (4 bytes) is stored as two units, whose values are 0xD800 + (((s - 0x10000) >> 10) &
  0x3FF) and 0xDC00 + ((s - 0x10000) & 0x3FF), and the loop goes on behind them. With
  less than two units of budget the loop ends, and nothing but the terminator is stored
  after what was there. The scalar 0x10000 is stored as 0xD800, 0xDC00.
\<close>

theorem surrogate_pair_emission:
  assumes "FAudio_UTF8_CodePoint mem p = Some (s, p')"
    and "s > 0xFFFF" and "s \<noteq> UNICODE_BOGUS_CHAR_VALUE"
  shows "(4 \<le> len \<longrightarrow>
           (\<exists>hi lo. utf16_loop mem p len out calls =
                      utf16_loop mem p' (len - 4) (out @ [hi, lo]) (calls @ [p]) \<and>
                    unat hi = 0xD800 + unat (drop_bit 10 (s - 0x10000) AND 0x3FF) \<and>
                    unat lo = 0xDC00 + unat ((s - 0x10000) AND 0x3FF))) \<and>
         (len < 4 \<longrightarrow>
           utf16_loop mem p len out calls =
             Inr (out @ [0], if 2 \<le> len then calls @ [p] else calls)) \<and>
         FAudio_UTF8_To_UTF16 [0xF0, 0x90, 0x80, 0x80, 0] 8 = Inr ([0xD800, 0xDC00, 0], [0, 4])"
proof -
  have sub: "substituted s = s" using assms(3) by (simp add: substituted_def)
  have nz: "s \<noteq> 0" using assms(2) by auto
  have big: "substituted s > 0xFFFF" using assms(2) sub by simp
  have pair: "\<exists>hi lo. utf16_loop mem p len out calls =
                      utf16_loop mem p' (len - 4) (out @ [hi, lo]) (calls @ [p]) \<and>
                    unat hi = 0xD800 + unat (drop_bit 10 (s - 0x10000) AND 0x3FF) \<and>
                    unat lo = 0xDC00 + unat ((s - 0x10000) AND 0x3FF)" if "4 \<le> len"
  proof -
    from that have "\<not> len < 4" by (simp add: word_le_nat_alt word_less_nat_alt)
    from loop_pair [OF assms(1) nz big this, of out calls] show ?thesis
      unfolding sub using high_unit(1) low_unit(1) by auto
  qed
  have stop: "utf16_loop mem p len out calls =
             Inr (out @ [0], if 2 \<le> len then calls @ [p] else calls)" if "len < 4"
    using that loop_pair_no_room [OF _ assms(1) nz big] by (simp add: loop_exit)
  have "FAudio_UTF8_To_UTF16 [0xF0, 0x90, 0x80, 0x80, 0] 8 = Inr ([0xD800, 0xDC00, 0], [0, 4])"
    by (simp add: run_defs)
  with pair stop show ?thesis by blast
qed

theorem surrogate_pair_emission_witness:
  "FAudio_UTF8_CodePoint [0xF0, 0x9F, 0x98, 0x80, 0] 0 = Some (0x1F600, 4) \<and>
   utf16_loop [0xF0, 0x9F, 0x98, 0x80, 0] 0 4 [] [] = Inr ([0xD83D, 0xDE00, 0], [0]) \<and>
   utf16_loop [0xF0, 0x9F, 0x98, 0x80, 0] 0 2 [] [] = Inr ([0], [0])"
  using surrogate_pair_emission [of "[0xF0, 0x9F, 0x98, 0x80, 0]" 0 "0x1F600" 4 4 "[]" "[]"]
  by (simp add: run_defs)

subsection \<open>Capacities of two and three units\<close>

text \<open>
  Claim C2, as amended. For every non-empty source string a capacity of exactly
  \<open>2 * sizeof (uint16_t)\<close> bytes holds one content unit and the terminator: the first
  scalar (\<open>?\<close> for a bogus one) when it is at most 0xFFFF, and the terminator alone
  when the first scalar needs a surrogate pair. A capacity of exactly
  \<open>sizeof (uint16_t)\<close> bytes holds the terminator alone.
\<close>

theorem To_UTF16_capacity_two_units:
  assumes "octet_at mem 0 = Some b" and "b \<noteq> 0"
    and "FAudio_UTF8_CodePoint mem 0 = Some (cp, p')"
  shows "FAudio_UTF8_To_UTF16 mem 4 =
           Inr (if substituted cp > 0xFFFF then [0] else [ucast (substituted cp), 0], [0]) \<and>
         (\<not> substituted cp > 0xFFFF \<longrightarrow> (ucast (substituted cp) :: uint16_t) \<noteq> 0) \<and>
         FAudio_UTF8_To_UTF16 mem 2 = Inr ([0], [])"
proof -
  have nz: "cp \<noteq> 0"
    using CodePoint_zero_iff [OF assms(3)] assms(1,2) by simp
  have two: "FAudio_UTF8_To_UTF16 mem 2 = Inr ([0], [])"
    by (simp add: FAudio_UTF8_To_UTF16_def loop_exit)
  have four: "FAudio_UTF8_To_UTF16 mem 4 =
           Inr (if substituted cp > 0xFFFF then [0] else [ucast (substituted cp), 0], [0])"
  proof (cases "substituted cp > 0xFFFF")
    case True
    then show ?thesis
      using loop_pair_no_room [OF _ assms(3) nz True, of 2 "[]" "[]"]
      by (simp add: FAudio_UTF8_To_UTF16_def)
  next
    case False
    then show ?thesis
      using loop_single [OF _ assms(3) nz False, of 2 "[]" "[]"]
      by (simp add: FAudio_UTF8_To_UTF16_def loop_exit)
  qed
  have "(ucast (substituted cp) :: uint16_t) \<noteq> 0" if small: "\<not> substituted cp > 0xFFFF"
  proof
    assume "(ucast (substituted cp) :: uint16_t) = 0"
    then have "unat (ucast (substituted cp) :: uint16_t) = 0" by simp
    then have "unat (substituted cp) = 0" using single_unit [OF small] by simp
    then have "substituted cp = 0" by (simp add: unat_eq_0)
    then show False
      using nz by (simp add: substituted_def UNICODE_BOGUS_CHAR_CODEPOINT_def split: if_splits)
  qed
  with two four show ?thesis by simp
qed

theorem To_UTF16_capacity_two_units_witness:
  "octet_at [0xC3, 0xA9, 0x41, 0] 0 = Some 0xC3 \<and> (0xC3 :: uint32_t) \<noteq> 0 \<and>
   FAudio_UTF8_CodePoint [0xC3, 0xA9, 0x41, 0] 0 = Some (0xE9, 2) \<and>
   FAudio_UTF8_To_UTF16 [0xC3, 0xA9, 0x41, 0] 4 = Inr ([0xE9, 0], [0]) \<and>
   FAudio_UTF8_To_UTF16 [0xC3, 0xA9, 0x41, 0] 2 = Inr ([0], [])"
  using To_UTF16_capacity_two_units [of "[0xC3, 0xA9, 0x41, 0]" "0xC3" "0xE9" 2]
  by (simp add: run_defs substituted_def)

text \<open>
  Claim C2 as stated fails: with a capacity of 4 bytes the source "A" is stored as the
  unit 0x41 and the terminator, one unit of content and not none.
\<close>

theorem To_UTF16_capacity_two_units_counterexample:
  "FAudio_UTF8_To_UTF16 [0x41, 0] 4 = Inr ([0x41, 0], [0]) \<and>
   FAudio_UTF8_To_UTF16 [0x41, 0] 4 \<noteq> Inr ([0], [0])"
  by (simp add: run_defs)

text \<open>
  Claim C3, as amended. For every source whose first scalar needs a surrogate pair, a
  capacity of \<open>3 * sizeof (uint16_t)\<close> bytes holds the complete pair and the terminator:
  a high surrogate, a low surrogate and zero, and the decoder is called once. A capacity
  of \<open>2 * sizeof (uint16_t)\<close> bytes holds the terminator alone. No output ends in a
  high surrogate without its low surrogate.
\<close>

theorem To_UTF16_capacity_three_units:
  assumes "FAudio_UTF8_CodePoint mem 0 = Some (s, p')"
    and "s > 0xFFFF" and "s \<noteq> UNICODE_BOGUS_CHAR_VALUE"
  shows "(\<exists>hi lo. FAudio_UTF8_To_UTF16 mem 6 = Inr ([hi, lo, 0], [0]) \<and>
            0xD800 \<le> unat hi \<and> unat hi \<le> 0xDBFF \<and> 0xDC00 \<le> unat lo \<and> unat lo \<le> 0xDFFF) \<and>
         FAudio_UTF8_To_UTF16 mem 4 = Inr ([0], [0])"
proof -
  have sub: "substituted s = s" using assms(3) by (simp add: substituted_def)
  have nz: "s \<noteq> 0" using assms(2) by auto
  have big: "substituted s > 0xFFFF" using assms(2) sub by simp
  let ?hi = "ucast (0xD800 + (drop_bit 10 (s - 0x10000) AND 0x3FF)) :: uint16_t"
  let ?lo = "ucast (0xDC00 + ((s - 0x10000) AND 0x3FF)) :: uint16_t"
  have "FAudio_UTF8_To_UTF16 mem 6 = Inr ([?hi, ?lo, 0], [0])"
    using loop_pair [OF assms(1) nz big, of 4 "[]" "[]"]
    by (simp add: FAudio_UTF8_To_UTF16_def sub loop_exit)
  moreover have "0xD800 \<le> unat ?hi \<and> unat ?hi \<le> 0xDBFF"
    using high_unit [of "drop_bit 10 (s - 0x10000)"] by simp
  moreover have "0xDC00 \<le> unat ?lo \<and> unat ?lo \<le> 0xDFFF"
    using low_unit [of "s - 0x10000"] by simp
  moreover have "FAudio_UTF8_To_UTF16 mem 4 = Inr ([0], [0])"
    using loop_pair_no_room [OF _ assms(1) nz big, of 2 "[]" "[]"]
    by (simp add: FAudio_UTF8_To_UTF16_def)
  ultimately show ?thesis by blast
qed

theorem To_UTF16_capacity_three_units_witness:
  "FAudio_UTF8_CodePoint [0xF0, 0x9F, 0x98, 0x80, 0x41, 0] 0 = Some (0x1F600, 4) \<and>
   FAudio_UTF8_To_UTF16 [0xF0, 0x9F, 0x98, 0x80, 0x41, 0] 6 = Inr ([0xD83D, 0xDE00, 0], [0]) \<and>
   FAudio_UTF8_To_UTF16 [0xF0, 0x9F, 0x98, 0x80, 0x41, 0] 4 = Inr ([0], [0])"
  using To_UTF16_capacity_three_units [of "[0xF0, 0x9F, 0x98, 0x80, 0x41, 0]" "0x1F600" 4]
  by (simp add: run_defs)

text \<open>
  Claim C3 as stated fails: with a capacity of 6 bytes the source U+10000 is stored as
  the pair 0xD800, 0xDC00 and the terminator, not as a single terminator unit.
\<close>

theorem To_UTF16_capacity_three_units_counterexample:
  "FAudio_UTF8_To_UTF16 [0xF0, 0x90, 0x80, 0x80, 0] 6 = Inr ([0xD800, 0xDC00, 0], [0]) \<and>
   FAudio_UTF8_To_UTF16 [0xF0, 0x90, 0x80, 0x80, 0] 6 \<noteq> Inr ([0], [0])"
  by (simp add: run_defs)

subsection \<open>Reads and the terminator of the source\<close>

text \<open>
  With a zero byte at or behind the cursor, a decoder call reads no byte behind that
  zero byte: every byte it reads follows bytes that are not zero.
\<close>

lemma CodePoint_reads_within_string:
  assumes "p \<le> z" and "z < length mem" and "mem ! z = 0"
  shows "\<exists>cp p'. FAudio_UTF8_CodePoint mem p = Some (cp, p')"
proof -
  have F1: "z < q" if "octet_at mem q = None" for q
    using that assms(2) by (simp add: octet_at_def split: if_splits)
  have F2: "q \<noteq> z" if "octet_at mem q = Some c" "c \<noteq> 0" for q c
    using that assms(3) by (auto simp: octet_at_def split: if_splits)
  have F3: "q \<noteq> z" if "octet_at mem q = Some c" "\<not> not_continuation c" for q c
  proof -
    have "c \<noteq> 0"
    proof
      assume "c = 0"
      with that(2) show False by (simp add: not_continuation_def)
    qed
    with that(1) show ?thesis by (rule F2)
  qed
  have two: "two_octets mem p c \<noteq> None" if "p < z" for c
  proof
    assume "two_octets mem p c = None"
    with that F3 [of "p + 1"] F3 [of "p + 2"] F3 [of "p + 3"] F3 [of "p + 4"] F3 [of "p + 5"]
    show False
      by (auto simp: two_octets_def Let_def split: option.splits if_splits dest!: F1)
  qed
  have three: "three_octets mem p c \<noteq> None" if "p < z" for c
  proof
    assume "three_octets mem p c = None"
    with that F3 [of "p + 1"] F3 [of "p + 2"] F3 [of "p + 3"] F3 [of "p + 4"] F3 [of "p + 5"]
    show False
      by (auto simp: three_octets_def Let_def split: option.splits if_splits dest!: F1)
  qed
  have four: "four_octets mem p c \<noteq> None" if "p < z" for c
  proof
    assume "four_octets mem p c = None"
    with that F3 [of "p + 1"] F3 [of "p + 2"] F3 [of "p + 3"] F3 [of "p + 4"] F3 [of "p + 5"]
    show False
      by (auto simp: four_octets_def Let_def split: option.splits if_splits dest!: F1)
  qed
  have five: "five_octets mem p \<noteq> None" if "p < z"
  proof
    assume "five_octets mem p = None"
    with that F3 [of "p + 1"] F3 [of "p + 2"] F3 [of "p + 3"] F3 [of "p + 4"] F3 [of "p + 5"]
    show False
      by (auto simp: five_octets_def Let_def split: option.splits if_splits dest!: F1)
  qed
  have six: "six_octets mem p \<noteq> None" if "p < z"
  proof
    assume "six_octets mem p = None"
    with that F3 [of "p + 1"] F3 [of "p + 2"] F3 [of "p + 3"] F3 [of "p + 4"] F3 [of "p + 5"]
    show False
      by (auto simp: six_octets_def Let_def split: option.splits if_splits dest!: F1)
  qed
  obtain c where c: "octet_at mem p = Some c"
    using assms(1,2) by (simp add: octet_at_def)
  show ?thesis
  proof (cases "c = 0")
    case True
    with c show ?thesis by (simp add: FAudio_UTF8_CodePoint_def)
  next
    case False
    with c assms(1) F2 [OF c] have "p < z" by simp
    from two [OF this] three [OF this] four [OF this] five [OF this] six [OF this] c
    show ?thesis by (auto simp: FAudio_UTF8_CodePoint_def)
  qed
qed

text \<open>
  No backtracking: within one call the decoder is started at strictly increasing
  positions, from the start cursor on.
\<close>

lemma utf16_loop_calls:
  "utf16_loop mem p len out calls = Inr (out', calls') \<Longrightarrow>
     \<exists>new. calls' = calls @ new \<and> sorted_wrt (<) new \<and> (\<forall>q \<in> set new. p \<le> q)"
proof (induction mem p len out calls rule: utf16_loop.induct)
  case (1 mem p len out calls)
  show ?case
  proof (cases "2 \<le> len")
    case False
    with "1.prems" show ?thesis by (auto simp: loop_exit)
  next
    case len2: True
    show ?thesis
    proof (cases "FAudio_UTF8_CodePoint mem p")
      case None
      with "1.prems" len2 show ?thesis by (simp add: loop_read_error)
    next
      case (Some r)
      then obtain cp p' where dec: "FAudio_UTF8_CodePoint mem p = Some (cp, p')"
        by (cases r) simp
      show ?thesis
      proof (cases "cp = 0")
        case True
        with "1.prems" len2 dec show ?thesis by (auto simp: loop_end_of_string)
      next
        case nz: False
        obtain c where c: "octet_at mem p = Some c"
          using dec by (auto simp: FAudio_UTF8_CodePoint_def split: option.splits)
        with nz CodePoint_zero_iff [OF dec] have "c \<noteq> 0" by simp
        then have adv: "p < p'" using CodePoint_progress [OF dec c] by simp
        show ?thesis
        proof (cases "substituted cp > 0xFFFF")
          case small: False
          have "utf16_loop mem p' (len - 2) (out @ [ucast (substituted cp)]) (calls @ [p]) =
                  Inr (out', calls')"
            using "1.prems" loop_single [OF len2 dec nz small] by simp
          then obtain new where "calls' = (calls @ [p]) @ new" "sorted_wrt (<) new"
              "\<forall>q \<in> set new. p' \<le> q"
            using "1.IH"(2) [OF len2 dec refl nz refl] small
            by (auto simp: substituted_def)
          with adv show ?thesis by (intro exI [of _ "p # new"]) auto
        next
          case big: True
          show ?thesis
          proof (cases "len < 4")
            case True
            with "1.prems" len2 dec nz big show ?thesis by (auto simp: loop_pair_no_room)
          next
            case room: False
            note "1.prems" [unfolded loop_pair [OF dec nz big room]]
            then obtain new where "calls' = (calls @ [p]) @ new" "sorted_wrt (<) new"
              "\<forall>q \<in> set new. p' \<le> q"
              using "1.IH"(1) [OF len2 dec refl nz refl _ _ refl refl refl] big room
              by (auto simp: substituted_def)
            with adv show ?thesis by (intro exI [of _ "p # new"]) auto
          qed
        qed
      qed
    qed
  qed
qed

lemma octet_at_less:
  "octet_at mem q = Some c \<Longrightarrow> mem ! q < 0xFC \<Longrightarrow> c < 252"
  by (auto simp: octet_at_def word_less_def uint_up_ucast is_up split: if_splits)

text \<open>
  A call that starts at or before the terminator, at a leading byte below 0xFC, leaves
  the cursor at or before the terminator.
\<close>

lemma CodePoint_stays_within_string:
  assumes "p \<le> z" and "z < length mem" and "mem ! z = 0"
    and dec: "FAudio_UTF8_CodePoint mem p = Some (cp, p')"
    and c: "octet_at mem p = Some c" and lead: "c < 252"
  shows "p' \<le> z"
proof -
  have F2: "q \<noteq> z" if "octet_at mem q = Some c" "c \<noteq> 0" for q c
    using that assms(3) by (auto simp: octet_at_def split: if_splits)
  have F3: "q \<noteq> z" if "octet_at mem q = Some c" "\<not> not_continuation c" for q c
  proof -
    have "c \<noteq> 0"
    proof
      assume "c = 0"
      with that(2) show False by (simp add: not_continuation_def)
    qed
    with that(1) show ?thesis by (rule F2)
  qed
  note F = F3 [of "p + 1"] F3 [of "p + 2"] F3 [of "p + 3"] F3 [of "p + 4"]
  show ?thesis
  proof (cases "c = 0")
    case True
    with dec c assms(1) show ?thesis by (simp add: FAudio_UTF8_CodePoint_def)
  next
    case False
    with c assms(1) F2 [OF c] have pz: "p < z" by simp
    have "p' \<le> z" if "two_octets mem p c = Some (cp, p')"
      using that pz F by (auto simp: two_octets_def Let_def split: option.splits if_splits)
    moreover have "p' \<le> z" if "three_octets mem p c = Some (cp, p')"
      using that pz F by (auto simp: three_octets_def Let_def split: option.splits if_splits)
    moreover have "p' \<le> z" if "four_octets mem p c = Some (cp, p')"
      using that pz F by (auto simp: four_octets_def Let_def split: option.splits if_splits)
    moreover have "p' \<le> z" if "five_octets mem p = Some (cp, p')"
      using that pz F by (auto simp: five_octets_def Let_def split: option.splits if_splits)
    ultimately show ?thesis
      using dec c lead pz False
      by (auto simp: FAudio_UTF8_CodePoint_def split: if_splits)
  qed
qed

text \<open>
  A source string none of whose bytes is 0xFC or above is transcoded without a read
  outside it: every decoder call starts at or before the terminator, and there are at
  most as many calls as the string has bytes, terminator included.
\<close>

lemma utf16_loop_within_string:
  "p \<le> z \<Longrightarrow> z < length mem \<Longrightarrow> mem ! z = 0 \<Longrightarrow> \<forall>q<z. mem ! q < 0xFC \<Longrightarrow>
     \<exists>out' new. utf16_loop mem p len out calls = Inr (out', calls @ new) \<and>
       (\<forall>q \<in> set new. q \<le> z) \<and> length new \<le> z + 1 - p"
proof (induction mem p len out calls rule: utf16_loop.induct)
  case (1 mem p len out calls)
  note str = "1.prems"(2,3,4)
  show ?case
  proof (cases "2 \<le> len")
    case False
    then show ?thesis by (simp add: loop_exit)
  next
    case len2: True
    obtain cp p' where dec: "FAudio_UTF8_CodePoint mem p = Some (cp, p')"
      using CodePoint_reads_within_string [OF "1.prems"(1,2,3)] by blast
    show ?thesis
    proof (cases "cp = 0")
      case True
      with len2 dec "1.prems"(1) show ?thesis by (simp add: loop_end_of_string)
    next
      case nz: False
      obtain c where c: "octet_at mem p = Some c"
        using dec by (auto simp: FAudio_UTF8_CodePoint_def split: option.splits)
      with nz CodePoint_zero_iff [OF dec] have c0: "c \<noteq> 0" by simp
      then have adv: "p < p'" using CodePoint_progress [OF dec c] by simp
      have "p \<noteq> z" using c c0 str(2) by (auto simp: octet_at_def split: if_splits)
      with "1.prems"(1) str(3) have "mem ! p < 0xFC" by simp
      then have "c < 252" using c by (rule octet_at_less [rotated])
      then have p'z: "p' \<le> z"
        using CodePoint_stays_within_string [OF "1.prems"(1) str(1,2) dec c] by simp
      show ?thesis
      proof (cases "substituted cp > 0xFFFF")
        case small: False
        obtain out' new where
          "utf16_loop mem p' (len - 2) (out @ [ucast (substituted cp)]) (calls @ [p]) =
             Inr (out', (calls @ [p]) @ new)"
          "\<forall>q \<in> set new. q \<le> z" "length new \<le> z + 1 - p'"
          using "1.IH"(2) [OF len2 dec refl nz refl _ p'z str] small
          by (auto simp: substituted_def)
        then show ?thesis
          using loop_single [OF len2 dec nz small, of out calls] adv p'z "1.prems"(1)
          by (intro exI [of _ out'] exI [of _ "p # new"]) auto
      next
        case big: True
        show ?thesis
        proof (cases "len < 4")
          case True
          with len2 dec nz big "1.prems"(1) show ?thesis by (simp add: loop_pair_no_room)
        next
          case room: False
          obtain out' new where
            "utf16_loop mem p' (len - 2 - 2)
               (out @ [ucast (0xD800 + (drop_bit 10 (substituted cp - 0x10000) AND 0x3FF)),
                       ucast (0xDC00 + ((substituted cp - 0x10000) AND 0x3FF))])
               (calls @ [p]) = Inr (out', (calls @ [p]) @ new)"
            "\<forall>q \<in> set new. q \<le> z" "length new \<le> z + 1 - p'"
            using "1.IH"(1) [OF len2 dec refl nz refl _ _ refl refl refl p'z str] big room
            by (auto simp: substituted_def)
          then show ?thesis
            using loop_pair [OF dec nz big room, of out calls] adv p'z "1.prems"(1)
            by (intro exI [of _ out'] exI [of _ "p # new"]) auto
        qed
      qed
    qed
  qed
qed

lemma To_UTF16_within_string:
  assumes "z < length mem" and "mem ! z = 0" and "\<forall>q<z. mem ! q < 0xFC"
  shows "\<exists>out calls. FAudio_UTF8_To_UTF16 mem len = Inr (out, calls) \<and>
           (\<forall>q \<in> set calls. q \<le> z) \<and> length calls \<le> z + 1"
  using utf16_loop_within_string [of 0 z mem "len - 2" "[]" "[]"] assms
  by (simp add: FAudio_UTF8_To_UTF16_def)

text \<open>
  Claim C9, at an input where the code departs from it. The source string is the
  six-octet form and its terminator (7 bytes, the terminator at index 6); the object
  goes on behind it. The one call at index 0 leaves the cursor at index 7, behind the
  terminator, and the loop goes on decoding there until a later zero byte or the
  capacity stops it: 9 decoder calls for a source string of 7 bytes.
\<close>

theorem To_UTF16_calls_beyond_source:
  "FAudio_UTF8_To_UTF16
     [0xFC, 0x80, 0x80, 0x80, 0x80, 0x80, 0, 0x41, 0x41, 0x41, 0x41, 0x41, 0x41, 0x41, 0] 20 =
     Inr ([0x3F, 0x41, 0x41, 0x41, 0x41, 0x41, 0x41, 0x41, 0], [0, 7, 8, 9, 10, 11, 12, 13, 14])"
  by (simp add: run_defs)

text \<open>
  Claim C10, at an input where the code departs from it. The source object is exactly
  the six-octet form and its terminator. After the first call the cursor is at index 7,
  and with room left in the destination the next call reads there, one byte behind the
  terminator and outside the object.
\<close>

theorem To_UTF16_reads_past_terminator:
  "FAudio_UTF8_To_UTF16 [0xFC, 0x80, 0x80, 0x80, 0x80, 0x80, 0] 6 = Inl ReadOutOfBounds"
  by (simp add: run_defs)


end
